theory Spec2Isabelle
  imports Main "HOL-Library.Sublist"
begin

section \<open>yt-liveread: live chat to speech pipeline\<close>

text \<open>
  A shallow embedding of the Python package \<^verbatim>\<open>yt_liveread\<close>: the configuration and its
  validation (\<^verbatim>\<open>config.py\<close>), the normalisation of chat messages and the ingestion loop
  (\<^verbatim>\<open>chat_reader.py\<close>), the speech worker (\<^verbatim>\<open>tts_speaker.py\<close>) and the operator's command
  loop (\<^verbatim>\<open>main.py\<close>).

  Python's \<^verbatim>\<open>int\<close> is \<^typ>\<open>int\<close>. A Python \<^verbatim>\<open>str\<close> is a \<^typ>\<open>string\<close>, one \<^typ>\<open>char\<close> for
  each code point, so the texts covered are those whose code points are below 256.
  Durations are natural numbers of milliseconds.
\<close>

subsection \<open>Configuration (\<^verbatim>\<open>config.py\<close>)\<close>

record config =
  youtube_url :: string
  max_message_length :: int
  cookies_path :: "string option"
  voice_module :: string
  speech_rate :: int
  speech_volume :: int
  speech_pitch :: int
  language :: string
  include_username :: bool
  queue_max_size :: int

datatype error = ValueError string

text \<open>\<^verbatim>\<open>Config.validate\<close>: the checks in the order of the source; the first that fails raises.\<close>

definition validate :: "config \<Rightarrow> error + unit" where
  "validate cfg =
     (if youtube_url cfg = [] then Inl (ValueError ''YouTube URL is required'')
      else if \<not> (- 100 \<le> speech_rate cfg \<and> speech_rate cfg \<le> 100)
        then Inl (ValueError ''Speech rate must be between -100 and 100'')
      else if \<not> (0 \<le> speech_volume cfg \<and> speech_volume cfg \<le> 100)
        then Inl (ValueError ''Speech volume must be between 0 and 100'')
      else if \<not> (- 100 \<le> speech_pitch cfg \<and> speech_pitch cfg \<le> 100)
        then Inl (ValueError ''Speech pitch must be between -100 and 100'')
      else if max_message_length cfg < 1
        then Inl (ValueError ''Max message length must be positive'')
      else if queue_max_size cfg < 1
        then Inl (ValueError ''Queue max size must be positive'')
      else Inr ())"

text \<open>
  The state \<^verbatim>\<open>main\<close> creates and shares with the workers: the queue with its
  \<^verbatim>\<open>maxsize\<close>, and the two events. \<^verbatim>\<open>pause_event\<close> set means "not paused".
\<close>

record shared =
  message_queue :: "string list"
  maxsize :: int
  pause_event :: bool
  shutdown_event :: bool

text \<open>
  The start of \<^verbatim>\<open>main\<close>, from the validation to the start of the two threads: a
  \<^verbatim>\<open>ValueError\<close> is printed and the process exits with \<^verbatim>\<open>sys.exit(1)\<close>; otherwise the
  shared state is created and both workers are started.
\<close>

datatype startup =
    Exited int string
  | Workers_started shared

definition main_startup :: "config \<Rightarrow> startup" where
  "main_startup cfg =
     (case validate cfg of
        Inl (ValueError e) \<Rightarrow> Exited 1 (''Configuration error: '' @ e)
      | Inr _ \<Rightarrow>
          Workers_started
            \<lparr>message_queue = [], maxsize = queue_max_size cfg,
             pause_event = True, shutdown_event = False\<rparr>)"

text \<open>The conditions under which the specification says a configuration is rejected.\<close>

definition spec_rejected :: "config \<Rightarrow> bool" where
  "spec_rejected cfg \<longleftrightarrow>
     youtube_url cfg = []
     \<or> speech_rate cfg < - 100 \<or> 100 < speech_rate cfg
     \<or> speech_volume cfg < 0 \<or> 100 < speech_volume cfg
     \<or> speech_pitch cfg < - 100 \<or> 100 < speech_pitch cfg
     \<or> max_message_length cfg < 1
     \<or> queue_max_size cfg < 1"

subsection \<open>Message normalisation (\<^verbatim>\<open>chat_reader.py\<close>)\<close>

text \<open>
  A chat message as the reader uses it: the keys \<^verbatim>\<open>message_type\<close>, \<^verbatim>\<open>author\<close> (a dictionary
  with the key \<^verbatim>\<open>name\<close>) and \<^verbatim>\<open>message\<close>. \<^term>\<open>None\<close> is an absent key.
\<close>

record author =
  name :: "string option"

record chat_message =
  message_type :: "string option"
  author :: "author option"
  message :: "string option"

text \<open>
  The characters Python's \<^verbatim>\<open>\s\<close> and \<^verbatim>\<open>str.strip\<close> treat as whitespace, among the code
  points below 256.
\<close>

definition is_space :: "char \<Rightarrow> bool" where
  "is_space c \<longleftrightarrow>
     (of_char c :: nat) \<in> {9, 10, 11, 12, 13, 28, 29, 30, 31, 32, 133, 160}"

text \<open>
  Whether the pattern \<^verbatim>\<open>http\S+\<close> matches at the start of a text: the four letters and
  at least one more character that is not whitespace.
\<close>

definition url_at :: "string \<Rightarrow> bool" where
  "url_at s \<longleftrightarrow>
     take 4 s = ''http'' \<and> (case drop 4 s of [] \<Rightarrow> False | c # _ \<Rightarrow> \<not> is_space c)"

text \<open>
  \<^verbatim>\<open>re.sub(r"http\S+", "[link]", text)\<close>: scanning from the left, a match (which is greedy,
  so it runs up to the next whitespace or the end) is replaced and the scan goes on after
  it; any other character is copied.
\<close>

function re_sub_url :: "string \<Rightarrow> string" where
  "re_sub_url [] = []"
| "re_sub_url (c # cs) =
     (if url_at (c # cs)
      then ''[link]'' @ re_sub_url (dropWhile (\<lambda>x. \<not> is_space x) (drop 4 (c # cs)))
      else c # re_sub_url cs)"
  by pat_completeness auto
termination
proof (relation "measure length")
  show "wf (measure length)" by simp
next
  fix c :: char and cs :: string
  have "length (dropWhile (\<lambda>x. \<not> is_space x) (drop 4 (c # cs))) \<le> length (drop 4 (c # cs))"
    by (rule length_dropWhile_le)
  also have "\<dots> < length (c # cs)" by simp
  finally show "(dropWhile (\<lambda>x. \<not> is_space x) (drop 4 (c # cs)), c # cs) \<in> measure length"
    by simp
next
  fix c :: char and cs :: string
  show "(cs, c # cs) \<in> measure length" by simp
qed

text \<open>The slice \<^verbatim>\<open>text[:n]\<close>; a negative \<^verbatim>\<open>n\<close> counts from the end.\<close>

definition slice_to :: "int \<Rightarrow> 'a list \<Rightarrow> 'a list" where
  "slice_to n xs =
     (if 0 \<le> n then take (nat n) xs else take (nat (int (length xs) + n)) xs)"

text \<open>
  \<^verbatim>\<open>message.get("author", {}).get("name", "Unknown")\<close>: the fallback is used when the
  author or the author's name is absent.
\<close>

definition author_name :: "chat_message \<Rightarrow> string" where
  "author_name m =
     (case author m of
        None \<Rightarrow> ''Unknown''
      | Some a \<Rightarrow> (case name a of None \<Rightarrow> ''Unknown'' | Some n \<Rightarrow> n))"

text \<open>The truncation of a long text: the slice up to the configured length, and the marker.\<close>

definition truncate_text :: "config \<Rightarrow> string \<Rightarrow> string" where
  "truncate_text cfg text =
     (if int (length text) > max_message_length cfg
      then slice_to (max_message_length cfg) text @ ''...''
      else text)"

text \<open>
  \<^verbatim>\<open>ChatReader._format_message\<close>; \<^term>\<open>None\<close> is a message to skip. The order is the
  source's: message type, author, empty text, truncation, URL replacement, user name.
\<close>

definition format_message :: "config \<Rightarrow> chat_message \<Rightarrow> string option" where
  "format_message cfg m =
     (if message_type m \<noteq> Some ''text_message'' then None
      else
        let author = author_name m;
            text = (case message m of None \<Rightarrow> [] | Some t \<Rightarrow> t)
        in
          if text = [] then None
          else
            let text = truncate_text cfg text;
                text = re_sub_url text
            in
              if include_username cfg then Some (author @ '' says: '' @ text)
              else Some text)"

subsection \<open>The bounded queue (\<^verbatim>\<open>queue.Queue(maxsize)\<close>)\<close>

text \<open>
  The queue is the list of its items, oldest first. \<^verbatim>\<open>Queue.full\<close>: a \<^verbatim>\<open>maxsize\<close> of zero
  or less means no bound.
\<close>

definition full :: "int \<Rightarrow> 'a list \<Rightarrow> bool" where
  "full msz q \<longleftrightarrow> 0 < msz \<and> msz \<le> int (length q)"

datatype queue_error = Full | Empty

text \<open>
  \<^verbatim>\<open>Queue.put(item, timeout=t)\<close>, a blocking put with a timeout, on a queue from which
  nothing is taken during the call: with a free slot the item is appended at once; on a
  full queue the call blocks for the timeout and then raises \<^verbatim>\<open>queue.Full\<close>. The second
  component is the time the call has blocked.
\<close>

definition put :: "int \<Rightarrow> nat \<Rightarrow> 'a list \<Rightarrow> 'a \<Rightarrow> (queue_error + 'a list) \<times> nat" where
  "put msz timeout q item =
     (if full msz q then (Inl Full, timeout) else (Inr (q @ [item]), 0))"

text \<open>
  \<^verbatim>\<open>Queue.get(timeout=t)\<close> on a queue to which nothing is added during the call: the
  oldest item, or \<^verbatim>\<open>queue.Empty\<close> after the timeout.
\<close>

definition get :: "nat \<Rightarrow> 'a list \<Rightarrow> (queue_error + 'a \<times> 'a list) \<times> nat" where
  "get timeout q = (case q of [] \<Rightarrow> (Inl Empty, timeout) | x # q' \<Rightarrow> (Inr (x, q'), 0))"

subsection \<open>The ingestion loop (\<^verbatim>\<open>ChatReader._run\<close>)\<close>

text \<open>
  The reader's view: the shared state, its counter of queued messages, and the time it
  has spent blocked in \<^verbatim>\<open>put\<close>.
\<close>

record reader = shared +
  message_count :: nat
  blocked_ms :: nat

text \<open>
  The \<^verbatim>\<open>try\<close> statement of the loop: \<^verbatim>\<open>put(formatted, timeout=0.1)\<close>, the counter on
  success, and \<^verbatim>\<open>queue.Full\<close> caught and ignored.
\<close>

definition try_put :: "reader \<Rightarrow> string \<Rightarrow> reader" where
  "try_put st formatted =
     (case put (maxsize st) 100 (message_queue st) formatted of
        (Inr q', w) \<Rightarrow>
          st\<lparr>message_queue := q', message_count := message_count st + 1,
             blocked_ms := blocked_ms st + w\<rparr>
      | (Inl _, w) \<Rightarrow> st\<lparr>blocked_ms := blocked_ms st + w\<rparr>)"

text \<open>The body of the loop after the shutdown check: format, and queue what is not empty.\<close>

definition handle_message :: "config \<Rightarrow> reader \<Rightarrow> chat_message \<Rightarrow> reader" where
  "handle_message cfg st m =
     (case format_message cfg m of
        None \<Rightarrow> st
      | Some formatted \<Rightarrow> if formatted = [] then st else try_put st formatted)"

text \<open>
  What the reader meets while it iterates over the chat: the next message, or, between
  two messages, the shutdown event being set or the speech worker taking an item.
\<close>

datatype reader_event = Chat chat_message | Shutdown_set | Consumer_get

text \<open>
  \<^verbatim>\<open>for message in chat\<close>: the loop ends with the stream, or at the first message that
  arrives once shutdown is set.
\<close>

fun read_loop :: "config \<Rightarrow> reader_event list \<Rightarrow> reader \<Rightarrow> reader" where
  "read_loop cfg [] st = st"
| "read_loop cfg (Shutdown_set # evs) st = read_loop cfg evs (st\<lparr>shutdown_event := True\<rparr>)"
| "read_loop cfg (Consumer_get # evs) st =
     read_loop cfg evs (st\<lparr>message_queue := drop 1 (message_queue st)\<rparr>)"
| "read_loop cfg (Chat m # evs) st =
     (if shutdown_event st then st else read_loop cfg evs (handle_message cfg st m))"

text \<open>The reader's state as \<^verbatim>\<open>main\<close> hands it over.\<close>

definition reader_init :: "config \<Rightarrow> reader" where
  "reader_init cfg =
     \<lparr>message_queue = [], maxsize = queue_max_size cfg, pause_event = True,
      shutdown_event = False, message_count = 0, blocked_ms = 0\<rparr>"

subsection \<open>The speech worker (\<^verbatim>\<open>TTSSpeaker._run\<close>)\<close>

text \<open>
  What the speech device does, from outside: how \<^verbatim>\<open>_setup_client\<close> ends (the connection
  fails and \<^verbatim>\<open>self.client\<close> stays \<^verbatim>\<open>None\<close>, or a setting fails after the client is
  assigned, or all succeeds), for which texts \<^verbatim>\<open>speak\<close> raises, and whether \<^verbatim>\<open>cancel\<close>
  raises. \<^verbatim>\<open>print\<close> is taken to succeed.
\<close>

datatype setup_result = Setup_ok | Connect_failed | Configure_failed

record device =
  setup_client :: setup_result
  speak_raises :: "string \<Rightarrow> bool"
  cancel_raises :: bool

text \<open>
  Where the worker is: before the setup, at the test of the outer \<^verbatim>\<open>while\<close>, in
  \<^verbatim>\<open>get\<close>, in the \<^verbatim>\<open>while\<close> that waits on the pause event with the text it holds, at the
  shutdown check after that loop, in the \<^verbatim>\<open>finally\<close> that closes the client, and returned.
\<close>

datatype location =
    Start
  | Loop_head
  | Getting
  | Pause_gate string
  | After_gate string
  | Cleanup
  | Stopped

text \<open>
  The worker's state: the shared state, its own fields (\<^verbatim>\<open>ready_event\<close>, and whether
  \<^verbatim>\<open>self.client\<close> is assigned), its location, and a record of what it has done: the
  texts it has taken from the queue, the texts it has passed to \<^verbatim>\<open>speak\<close>, the number of
  \<^verbatim>\<open>speak\<close> calls that raised, the time it has spent in waits that ran to their timeout,
  and whether the client was cancelled and closed.
\<close>

record speaker = shared +
  ready_event :: bool
  client :: bool
  pc :: location
  popped :: "string list"
  spoken :: "string list"
  speak_errors :: nat
  waited_ms :: nat
  cancelled :: bool
  closed :: bool

text \<open>
  One step of the worker. Both waits have a timeout of 500 ms:
  \<^verbatim>\<open>get(timeout=0.5)\<close> gives the oldest item or \<^verbatim>\<open>queue.Empty\<close>, and
  \<^verbatim>\<open>pause_event.wait(timeout=0.5)\<close> is true when the event is set (not paused) and false
  after the timeout. An exception of \<^verbatim>\<open>speak\<close> is caught and the loop goes on.
\<close>

definition speaker_step :: "device \<Rightarrow> speaker \<Rightarrow> speaker" where
  "speaker_step dev s =
     (case pc s of
        Start \<Rightarrow>
          (case setup_client dev of
             Setup_ok \<Rightarrow> s\<lparr>client := True, ready_event := True, pc := Loop_head\<rparr>
           | Connect_failed \<Rightarrow> s\<lparr>ready_event := True, pc := Stopped\<rparr>
           | Configure_failed \<Rightarrow> s\<lparr>client := True, ready_event := True, pc := Stopped\<rparr>)
      | Loop_head \<Rightarrow> if shutdown_event s then s\<lparr>pc := Cleanup\<rparr> else s\<lparr>pc := Getting\<rparr>
      | Getting \<Rightarrow>
          (case get 500 (message_queue s) of
             (Inl _, w) \<Rightarrow> s\<lparr>pc := Loop_head, waited_ms := waited_ms s + w\<rparr>
           | (Inr (text, q'), w) \<Rightarrow>
               s\<lparr>message_queue := q', popped := popped s @ [text], pc := Pause_gate text,
                 waited_ms := waited_ms s + w\<rparr>)
      | Pause_gate text \<Rightarrow>
          if pause_event s then s\<lparr>pc := After_gate text\<rparr>
          else if shutdown_event s
            then s\<lparr>pc := After_gate text, waited_ms := waited_ms s + 500\<rparr>
          else s\<lparr>waited_ms := waited_ms s + 500\<rparr>
      | After_gate text \<Rightarrow>
          if shutdown_event s then s\<lparr>pc := Cleanup\<rparr>
          else if client s
            then s\<lparr>spoken := spoken s @ [text],
                   speak_errors := speak_errors s + (if speak_raises dev text then 1 else 0),
                   pc := Loop_head\<rparr>
          else s\<lparr>pc := Loop_head\<rparr>
      | Cleanup \<Rightarrow>
          if client s
            then s\<lparr>cancelled := True, closed := \<not> cancel_raises dev, pc := Stopped\<rparr>
          else s\<lparr>pc := Stopped\<rparr>
      | Stopped \<Rightarrow> s)"

text \<open>
  What happens around the worker: it takes its next step (\<open>Tick\<close>), or another thread
  acts on the shared state: the shutdown event is set (it is never cleared), the operator
  toggles the pause event, or the reader puts an item with
  \<^verbatim>\<open>put(formatted, timeout=0.1)\<close>, which a full queue refuses.
\<close>

datatype speaker_event = Tick | Set_shutdown | Toggle_pause | Producer_put string

definition on_event :: "device \<Rightarrow> speaker \<Rightarrow> speaker_event \<Rightarrow> speaker" where
  "on_event dev s e =
     (case e of
        Tick \<Rightarrow> speaker_step dev s
      | Set_shutdown \<Rightarrow> s\<lparr>shutdown_event := True\<rparr>
      | Toggle_pause \<Rightarrow> s\<lparr>pause_event := \<not> pause_event s\<rparr>
      | Producer_put x \<Rightarrow>
          (case put (maxsize s) 100 (message_queue s) x of
             (Inl _, _) \<Rightarrow> s
           | (Inr q', _) \<Rightarrow> s\<lparr>message_queue := q'\<rparr>))"

fun speaker_run :: "device \<Rightarrow> speaker_event list \<Rightarrow> speaker \<Rightarrow> speaker" where
  "speaker_run dev [] s = s"
| "speaker_run dev (e # es) s = speaker_run dev es (on_event dev s e)"

text \<open>The worker as \<^verbatim>\<open>main\<close> creates it, on a given shared state.\<close>

definition speaker_init :: "shared \<Rightarrow> speaker" where
  "speaker_init sh =
     \<lparr>message_queue = message_queue sh, maxsize = maxsize sh, pause_event = pause_event sh,
      shutdown_event = shutdown_event sh, ready_event = False, client = False, pc = Start,
      popped = [], spoken = [], speak_errors = 0, waited_ms = 0, cancelled = False,
      closed = False\<rparr>"

text \<open>The number of steps the worker takes in a run, and the items the reader offers.\<close>

definition ticks :: "speaker_event list \<Rightarrow> nat" where
  "ticks es = length (filter (\<lambda>e. e = Tick) es)"

fun offered :: "speaker_event list \<Rightarrow> string list" where
  "offered [] = []"
| "offered (Producer_put x # es) = x # offered es"
| "offered (_ # es) = offered es"

subsection \<open>The operator's command loop (\<^verbatim>\<open>main\<close>)\<close>

text \<open>\<^verbatim>\<open>str.strip()\<close> and \<^verbatim>\<open>str.lower()\<close>, on code points below 256.\<close>

definition strip :: "string \<Rightarrow> string" where
  "strip s = rev (dropWhile is_space (rev (dropWhile is_space s)))"

definition lower_char :: "char \<Rightarrow> char" where
  "lower_char c =
     (let n = (of_char c :: nat) in
      if (65 \<le> n \<and> n \<le> 90) \<or> (192 \<le> n \<and> n \<le> 222 \<and> n \<noteq> 215)
      then char_of (n + 32) else c)"

definition lower :: "string \<Rightarrow> string" where
  "lower s = map lower_char s"

text \<open>
  What the loop meets while it is blocked in \<^verbatim>\<open>input()\<close>: a line; the end of the input
  (\<^verbatim>\<open>EOFError\<close>); any other exception out of the loop body; or the shutdown event being
  set by another party (the handler of SIGINT, or the reader when it cannot connect),
  after which \<^verbatim>\<open>input()\<close> goes on waiting.
\<close>

datatype stdin_event = Line string | Eof | Fault | Async_shutdown

text \<open>
  The loop from the call of \<^verbatim>\<open>input()\<close> on; each way back to the top of the loop tests
  the loop's condition. The result is the shared state with which \<^verbatim>\<open>main\<close> reaches the
  joins in its \<^verbatim>\<open>finally\<close>; \<^term>\<open>None\<close> is a loop still waiting for input at the end of
  the events.
\<close>

fun await_input :: "stdin_event list \<Rightarrow> shared \<Rightarrow> shared option" where
  "await_input [] st = None"
| "await_input (Async_shutdown # evs) st = await_input evs (st\<lparr>shutdown_event := True\<rparr>)"
| "await_input (Eof # evs) st = Some st"
| "await_input (Fault # evs) st = Some (st\<lparr>shutdown_event := True\<rparr>)"
| "await_input (Line l # evs) st =
     (let cmd = lower (strip l) in
      if cmd = ''p'' then
        (let st' = st\<lparr>pause_event := \<not> pause_event st\<rparr>
         in if shutdown_event st' then Some st' else await_input evs st')
      else if cmd = ''q'' then Some (st\<lparr>shutdown_event := True\<rparr>)
      else if shutdown_event st then Some st else await_input evs st)"

text \<open>\<^verbatim>\<open>while not shutdown_event.is_set()\<close>, entered from the top.\<close>

definition command_loop :: "stdin_event list \<Rightarrow> shared \<Rightarrow> shared option" where
  "command_loop evs st = (if shutdown_event st then Some st else await_input evs st)"

text \<open>The shared state as \<^verbatim>\<open>main\<close> creates it.\<close>

definition shared_init :: "config \<Rightarrow> shared" where
  "shared_init cfg =
     \<lparr>message_queue = [], maxsize = queue_max_size cfg, pause_event = True,
      shutdown_event = False\<rparr>"

text \<open>
  The configuration \<^verbatim>\<open>main\<close> builds when only the URL is given: the defaults of the
  dataclass, which are also those of the command line.
\<close>

definition default_config :: "string \<Rightarrow> config" where
  "default_config url =
     \<lparr>youtube_url = url, max_message_length = 200, cookies_path = None,
      voice_module = ''espeak-ng'', speech_rate = 0, speech_volume = 100, speech_pitch = 0,
      language = ''en'', include_username = True, queue_max_size = 50\<rparr>"

text \<open>A plain-text chat message with an author and a body, for the scenarios.\<close>

definition text_message :: "string \<Rightarrow> string \<Rightarrow> chat_message" where
  "text_message a b =
     \<lparr>message_type = Some ''text_message'', author = Some \<lparr>name = Some a\<rparr>, message = Some b\<rparr>"

subsection \<open>Invariants of the speech worker\<close>

text \<open>
  What has been taken from the queue and what has been spoken, by location: equal between
  two items, one more taken while an item is held, and after the loop either equal or one
  more taken with the shutdown event set.
\<close>

definition holds_inv :: "speaker \<Rightarrow> bool" where
  "holds_inv s \<longleftrightarrow>
     (case pc s of
        Start \<Rightarrow> popped s = [] \<and> spoken s = []
      | Loop_head \<Rightarrow> client s \<and> popped s = spoken s
      | Getting \<Rightarrow> client s \<and> popped s = spoken s
      | Pause_gate t \<Rightarrow> client s \<and> popped s = spoken s @ [t]
      | After_gate t \<Rightarrow> client s \<and> popped s = spoken s @ [t]
      | Cleanup \<Rightarrow> popped s = spoken s \<or> (shutdown_event s \<and> (\<exists>t. popped s = spoken s @ [t]))
      | Stopped \<Rightarrow> popped s = spoken s \<or> (shutdown_event s \<and> (\<exists>t. popped s = spoken s @ [t])))"

text \<open>
  The locations from which, with the shutdown event set, the worker can only go on to its
  end while it holds the text \<open>t\<close>; the steps that are left from each; and the waiting
  time still possible: one more timeout at the pause gate, none after it.
\<close>

definition stopping :: "string \<Rightarrow> location \<Rightarrow> bool" where
  "stopping t l \<longleftrightarrow> l = Pause_gate t \<or> l = After_gate t \<or> l = Cleanup \<or> l = Stopped"

fun steps_left :: "location \<Rightarrow> nat" where
  "steps_left (Pause_gate t) = 3"
| "steps_left (After_gate t) = 2"
| "steps_left Cleanup = 1"
| "steps_left _ = 0"

definition wait_budget :: "string \<Rightarrow> speaker \<Rightarrow> nat" where
  "wait_budget t s = waited_ms s + (if pc s = Pause_gate t then 500 else 0)"

text \<open>
  After a failed setup the worker is either not yet started or has returned with the
  ready event set, and it has taken, spoken and closed nothing.
\<close>

definition failed_inv :: "speaker \<Rightarrow> bool" where
  "failed_inv s \<longleftrightarrow>
     popped s = [] \<and> spoken s = [] \<and> \<not> cancelled s \<and> \<not> closed s
     \<and> (pc s = Start \<or> (pc s = Stopped \<and> ready_event s))"

text \<open>The ready event is set as soon as the worker leaves its start.\<close>

definition ready_inv :: "speaker \<Rightarrow> bool" where
  "ready_inv s \<longleftrightarrow> (pc s = Start \<and> popped s = [] \<and> spoken s = []) \<or> ready_event s"

text \<open>Two devices for the scenarios: one that works, and one that cannot be reached.\<close>

definition dev_ok :: device where
  "dev_ok = \<lparr>setup_client = Setup_ok, speak_raises = (\<lambda>_. False), cancel_raises = False\<rparr>"

definition dev_failing :: device where
  "dev_failing = \<lparr>setup_client = Connect_failed, speak_raises = (\<lambda>_. False), cancel_raises = False\<rparr>"

section \<open>Theorems\<close>

subsection \<open>Configuration validation\<close>

lemma validate_error_iff: "(\<exists>e. validate cfg = Inl e) \<longleftrightarrow> spec_rejected cfg"
  unfolding validate_def spec_rejected_def by auto

lemma validate_ok_iff: "validate cfg = Inr () \<longleftrightarrow> \<not> spec_rejected cfg"
  unfolding validate_def spec_rejected_def by auto

text \<open>
  Claim C8. Validation raises an error exactly when the target URL is empty, the speech
  rate is outside -100..100, the volume is outside 0..100, the pitch is outside -100..100,
  the maximum message length is below 1 or the queue size is below 1. In that case
  \<^verbatim>\<open>main\<close> exits with code 1 and no worker has been started; every other configuration
  passes validation and \<^verbatim>\<open>main\<close> goes on to start the workers.
\<close>

theorem validate_rejects_iff:
  "((\<exists>e. validate cfg = Inl e) \<longleftrightarrow> spec_rejected cfg)
   \<and> (validate cfg = Inr () \<longleftrightarrow> \<not> spec_rejected cfg)
   \<and> ((\<exists>msg. main_startup cfg = Exited 1 msg) \<longleftrightarrow> spec_rejected cfg)
   \<and> ((\<exists>sh. main_startup cfg = Workers_started sh) \<longleftrightarrow> \<not> spec_rejected cfg)"
proof -
  have a: "(\<exists>e. validate cfg = Inl e) \<longleftrightarrow> spec_rejected cfg"
    by (rule validate_error_iff)
  have b: "validate cfg = Inr () \<longleftrightarrow> \<not> spec_rejected cfg"
    by (rule validate_ok_iff)
  have c: "(\<exists>msg. main_startup cfg = Exited 1 msg) \<longleftrightarrow> (\<exists>e. validate cfg = Inl e)"
    unfolding main_startup_def by (auto split: sum.splits error.splits)
  have d: "(\<exists>sh. main_startup cfg = Workers_started sh) \<longleftrightarrow> validate cfg = Inr ()"
    unfolding main_startup_def by (auto split: sum.splits error.splits)
  show ?thesis using a b c d by simp
qed

theorem validate_rejects_iff_witness:
  "spec_rejected \<lparr>youtube_url = ''https://youtu.be/abc'', max_message_length = 200,
      cookies_path = None, voice_module = ''espeak-ng'', speech_rate = 101,
      speech_volume = 100, speech_pitch = 0, language = ''en'', include_username = True,
      queue_max_size = 50\<rparr>
   \<and> (\<exists>msg. main_startup \<lparr>youtube_url = ''https://youtu.be/abc'', max_message_length = 200,
      cookies_path = None, voice_module = ''espeak-ng'', speech_rate = 101,
      speech_volume = 100, speech_pitch = 0, language = ''en'', include_username = True,
      queue_max_size = 50\<rparr> = Exited 1 msg)
   \<and> \<not> spec_rejected \<lparr>youtube_url = ''https://youtu.be/abc'', max_message_length = 200,
      cookies_path = None, voice_module = ''espeak-ng'', speech_rate = 0,
      speech_volume = 100, speech_pitch = 0, language = ''en'', include_username = True,
      queue_max_size = 50\<rparr>
   \<and> validate \<lparr>youtube_url = ''https://youtu.be/abc'', max_message_length = 200,
      cookies_path = None, voice_module = ''espeak-ng'', speech_rate = 0,
      speech_volume = 100, speech_pitch = 0, language = ''en'', include_username = True,
      queue_max_size = 50\<rparr> = Inr ()"
proof -
  let ?bad = "\<lparr>youtube_url = ''https://youtu.be/abc'', max_message_length = 200,
      cookies_path = None, voice_module = ''espeak-ng'', speech_rate = 101,
      speech_volume = 100, speech_pitch = 0, language = ''en'', include_username = True,
      queue_max_size = 50\<rparr>"
  let ?good = "\<lparr>youtube_url = ''https://youtu.be/abc'', max_message_length = 200,
      cookies_path = None, voice_module = ''espeak-ng'', speech_rate = 0,
      speech_volume = 100, speech_pitch = 0, language = ''en'', include_username = True,
      queue_max_size = 50\<rparr>"
  have r: "spec_rejected ?bad" by (simp add: spec_rejected_def)
  have g: "\<not> spec_rejected ?good" by (simp add: spec_rejected_def)
  show ?thesis
    using r g validate_rejects_iff [of ?bad] validate_rejects_iff [of ?good] by simp
qed

subsection \<open>Message normalisation\<close>

lemma re_sub_url_nonempty: "s \<noteq> [] \<Longrightarrow> re_sub_url s \<noteq> []"
  by (cases s) auto

lemma truncate_text_nonempty: "t \<noteq> [] \<Longrightarrow> truncate_text cfg t \<noteq> []"
  by (simp add: truncate_text_def)

lemma format_message_nonempty: "format_message cfg m = Some s \<Longrightarrow> s \<noteq> []"
  by (auto simp: format_message_def Let_def re_sub_url_nonempty truncate_text_nonempty split: if_splits)

lemma re_sub_url_head_kept:
  "re_sub_url s = x # r \<Longrightarrow> x \<noteq> CHR ''['' \<Longrightarrow> \<exists>s'. s = x # s' \<and> \<not> url_at s \<and> r = re_sub_url s'"
  by (cases s) (auto split: if_splits)

lemma url_at_Cons5:
  "url_at s \<longleftrightarrow> (\<exists>x r. s = CHR ''h'' # CHR ''t'' # CHR ''t'' # CHR ''p'' # x # r \<and> \<not> is_space x)"
proof
  assume u: "url_at s"
  then have t: "take 4 s = ''http''" by (simp add: url_at_def)
  from u obtain x r where d: "drop 4 s = x # r" and x: "\<not> is_space x"
    by (auto simp: url_at_def split: list.splits)
  have "s = take 4 s @ drop 4 s" by simp
  with t d have "s = ''http'' @ x # r" by simp
  with x show "\<exists>x r. s = CHR ''h'' # CHR ''t'' # CHR ''t'' # CHR ''p'' # x # r \<and> \<not> is_space x" by simp
next
  assume "\<exists>x r. s = CHR ''h'' # CHR ''t'' # CHR ''t'' # CHR ''p'' # x # r \<and> \<not> is_space x"
  then show "url_at s" by (auto simp: url_at_def)
qed

lemma re_sub_url_head_nonspace:
  "re_sub_url s = x # r \<Longrightarrow> \<not> is_space x \<Longrightarrow> \<exists>y s'. s = y # s' \<and> \<not> is_space y"
proof (cases s)
  case Nil
  assume "re_sub_url s = x # r"
  with Nil show ?thesis by simp
next
  case (Cons y s')
  assume e: "re_sub_url s = x # r" and x: "\<not> is_space x"
  show ?thesis
  proof (cases "url_at s")
    case True
    then have "y = CHR ''h''" using Cons unfolding url_at_Cons5 by auto
    then have "\<not> is_space y" by (simp add: is_space_def)
    with Cons show ?thesis by simp
  next
    case False
    with e Cons have "y = x" by simp
    with x Cons show ?thesis by simp
  qed
qed

lemma not_url_at_re_sub_url: "\<not> url_at (re_sub_url s)"
proof
  assume "url_at (re_sub_url s)"
  then obtain x r where e: "re_sub_url s = CHR ''h'' # CHR ''t'' # CHR ''t'' # CHR ''p'' # x # r"
    and x: "\<not> is_space x" unfolding url_at_Cons5 by blast
  from re_sub_url_head_kept [OF e] obtain s1 where s: "s = CHR ''h'' # s1" and n: "\<not> url_at s"
    and e1: "re_sub_url s1 = CHR ''t'' # CHR ''t'' # CHR ''p'' # x # r" by auto
  from re_sub_url_head_kept [OF e1] obtain s2 where s1: "s1 = CHR ''t'' # s2"
    and e2: "re_sub_url s2 = CHR ''t'' # CHR ''p'' # x # r" by auto
  from re_sub_url_head_kept [OF e2] obtain s3 where s2: "s2 = CHR ''t'' # s3"
    and e3: "re_sub_url s3 = CHR ''p'' # x # r" by auto
  from re_sub_url_head_kept [OF e3] obtain s4 where s3: "s3 = CHR ''p'' # s4"
    and e4: "re_sub_url s4 = x # r" by auto
  from re_sub_url_head_nonspace [OF e4 x] obtain y s5 where s4: "s4 = y # s5" and y: "\<not> is_space y"
    by auto
  from s s1 s2 s3 s4 y have "url_at s" unfolding url_at_Cons5 by simp
  with n show False by simp
qed

lemma not_url_at_link: "i < 6 \<Longrightarrow> \<not> url_at (drop i (''[link]'' @ r))"
proof -
  assume "i < 6"
  then consider "i = 0" | "i = 1" | "i = 2" | "i = 3" | "i = 4" | "i = 5" by linarith
  then show ?thesis by cases (simp_all add: url_at_def)
qed

lemma no_url_left: "\<not> url_at (drop i (re_sub_url s))"
proof (induction s arbitrary: i rule: re_sub_url.induct)
  case 1
  then show ?case by (simp add: url_at_def)
next
  case (2 c cs)
  show ?case
  proof (cases "url_at (c # cs)")
    case True
    let ?r = "re_sub_url (dropWhile (\<lambda>x. \<not> is_space x) (drop 4 (c # cs)))"
    from True have e: "re_sub_url (c # cs) = ''[link]'' @ ?r" by simp
    show ?thesis
    proof (cases "i < 6")
      case True
      then show ?thesis unfolding e by (rule not_url_at_link)
    next
      case False
      then have "drop i (''[link]'' @ ?r) = drop (i - 6) ?r"
        using drop_append [of i "''[link]''" ?r] by (simp add: eval_nat_numeral)
      then show ?thesis unfolding e using "2.IH"(1) [OF \<open>url_at (c # cs)\<close>, of "i - 6"] by simp
    qed
  next
    case False
    then have e: "re_sub_url (c # cs) = c # re_sub_url cs" by simp
    show ?thesis
    proof (cases i)
      case 0
      then show ?thesis using not_url_at_re_sub_url [of "c # cs"] by simp
    next
      case (Suc k)
      then show ?thesis unfolding e using "2.IH"(2) [OF False, of k] by simp
    qed
  qed
qed

lemma re_sub_url_id: "(\<And>i. \<not> url_at (drop i s)) \<Longrightarrow> re_sub_url s = s"
proof (induction s)
  case Nil
  then show ?case by simp
next
  case (Cons c cs)
  from Cons.prems [of 0] have n: "\<not> url_at (c # cs)" by simp
  have "\<And>i. \<not> url_at (drop i cs)" using Cons.prems [of "Suc i" for i] by simp
  then have "re_sub_url cs = cs" by (rule Cons.IH)
  with n show ?case by simp
qed

lemma url_at_append_dots: "url_at (s @ ''...'') \<Longrightarrow> take 4 s = ''http''"
  unfolding url_at_Cons5
  by (auto simp: append_eq_Cons_conv)

lemma re_sub_url_dots:
  "(\<And>i. take 4 (drop i s) \<noteq> ''http'') \<Longrightarrow> re_sub_url (s @ ''...'') = s @ ''...''"
proof (induction s)
  case Nil
  then show ?case by (simp add: url_at_def)
next
  case (Cons c cs)
  from Cons.prems [of 0] have "take 4 (c # cs) \<noteq> ''http''" by simp
  then have n: "\<not> url_at ((c # cs) @ ''...'')" using url_at_append_dots by blast
  have "\<And>i. take 4 (drop i cs) \<noteq> ''http''" using Cons.prems [of "Suc i" for i] by simp
  then have "re_sub_url (cs @ ''...'') = cs @ ''...''" by (rule Cons.IH)
  with n show ?case by simp
qed

lemma format_message_text:
  "message_type m = Some ''text_message'' \<Longrightarrow> message m = Some b \<Longrightarrow> b \<noteq> [] \<Longrightarrow>
   format_message cfg m =
     Some ((if include_username cfg then author_name m @ '' says: '' else [])
           @ re_sub_url (truncate_text cfg b))"
  by (simp add: format_message_def Let_def)

lemma format_message_Some_D:
  "format_message cfg m = Some item \<Longrightarrow>
   message_type m = Some ''text_message'' \<and> (\<exists>b. message m = Some b \<and> b \<noteq> [])"
  by (auto simp: format_message_def Let_def split: if_splits option.splits)

lemma format_message_other_kind:
  "message_type m \<noteq> Some ''text_message'' \<Longrightarrow> format_message cfg m = None"
  by (simp add: format_message_def)

lemma format_message_empty:
  "message m = None \<or> message m = Some [] \<Longrightarrow> format_message cfg m = None"
  by (auto simp: format_message_def Let_def)

lemma three_messages_scenario:
  "message_queue
     (read_loop (default_config url)
        [Chat (text_message ''A'' ''hi''),
         Chat (text_message ''B'' ''https://example.com/v?x=1 check this''),
         Chat (text_message ''C'' [])]
        (reader_init (default_config url)))
   = [''A says: hi'', ''B says: [link] check this'']"
  by (simp add: default_config_def text_message_def reader_init_def handle_message_def
      format_message_def author_name_def truncate_text_def try_put_def put_def full_def
      url_at_def is_space_def Let_def)


text \<open>
  Claim C3. Normalisation yields an item only for a plain-text message with a non-empty
  body: a message of any other kind yields none, whatever its text, and an empty or absent
  body yields none. The item is the body, truncated and with every match of the URL
  pattern replaced by \<^verbatim>\<open>[link]\<close> (no match is left in it), after the author's name and
  \<^verbatim>\<open> says: \<close> when user names are included. The three messages "hi" from A, a URL
  followed by " check this" from B, and an empty body from C, read with the default
  configuration (capacity 50, user names on), leave exactly the two items
  "A says: hi" and "B says: [link] check this" in the queue.
\<close>

theorem format_message_items:
  "(format_message cfg m = Some item \<longrightarrow>
      message_type m = Some ''text_message'' \<and> (\<exists>t. message m = Some t \<and> t \<noteq> []))
   \<and> (message_type m \<noteq> Some ''text_message'' \<longrightarrow> format_message cfg m = None)
   \<and> (message m = None \<or> message m = Some [] \<longrightarrow> format_message cfg m = None)
   \<and> (message_type m = Some ''text_message'' \<and> message m = Some b \<and> b \<noteq> [] \<longrightarrow>
        format_message cfg m =
          Some ((if include_username cfg then author_name m @ '' says: '' else [])
                @ re_sub_url (truncate_text cfg b)))
   \<and> (\<forall>i. \<not> url_at (drop i (re_sub_url (truncate_text cfg b))))
   \<and> message_queue
        (read_loop (default_config url)
           [Chat (text_message ''A'' ''hi''),
            Chat (text_message ''B'' ''https://example.com/v?x=1 check this''),
            Chat (text_message ''C'' [])]
           (reader_init (default_config url)))
      = [''A says: hi'', ''B says: [link] check this'']"
proof (intro conjI impI allI)
  assume "format_message cfg m = Some item"
  then show "message_type m = Some ''text_message''" and "\<exists>t. message m = Some t \<and> t \<noteq> []"
    using format_message_Some_D by blast+
next
  assume "message_type m \<noteq> Some ''text_message''"
  then show "format_message cfg m = None" by (rule format_message_other_kind)
next
  assume "message m = None \<or> message m = Some []"
  then show "format_message cfg m = None" by (rule format_message_empty)
next
  assume "message_type m = Some ''text_message'' \<and> message m = Some b \<and> b \<noteq> []"
  then show "format_message cfg m =
      Some ((if include_username cfg then author_name m @ '' says: '' else [])
            @ re_sub_url (truncate_text cfg b))"
    using format_message_text by blast
next
  fix i show "\<not> url_at (drop i (re_sub_url (truncate_text cfg b)))" by (rule no_url_left)
next
  show "message_queue
        (read_loop (default_config url)
           [Chat (text_message ''A'' ''hi''),
            Chat (text_message ''B'' ''https://example.com/v?x=1 check this''),
            Chat (text_message ''C'' [])]
           (reader_init (default_config url)))
      = [''A says: hi'', ''B says: [link] check this'']"
    by (rule three_messages_scenario)
qed

theorem format_message_items_witness:
  "message_type (text_message ''B'' ''see http://x.y/z'') = Some ''text_message''
   \<and> message (text_message ''B'' ''see http://x.y/z'') = Some ''see http://x.y/z''
   \<and> ''see http://x.y/z'' \<noteq> []
   \<and> format_message (default_config ''u'') (text_message ''B'' ''see http://x.y/z'')
       = Some ''B says: see [link]''
   \<and> message_type (text_message ''B'' ''see http://x.y/z''\<lparr>message_type := Some ''system_event''\<rparr>)
       \<noteq> Some ''text_message''
   \<and> format_message (default_config ''u'')
        (text_message ''B'' ''see http://x.y/z''\<lparr>message_type := Some ''system_event''\<rparr>) = None
   \<and> message (text_message ''C'' []) = Some []
   \<and> format_message (default_config ''u'') (text_message ''C'' []) = None"
proof -
  let ?m = "text_message ''B'' ''see http://x.y/z''"
  let ?s = "?m\<lparr>message_type := Some ''system_event''\<rparr>"
  let ?c = "default_config ''u''"
  have k: "message_type ?m = Some ''text_message''" and t: "message ?m = Some ''see http://x.y/z''"
    by (simp_all add: text_message_def)
  have n: "''see http://x.y/z'' \<noteq> []" by simp
  have a: "author_name ?m = ''B''" by (simp add: author_name_def text_message_def)
  have u: "include_username ?c" by (simp add: default_config_def)
  have r: "re_sub_url (truncate_text ?c ''see http://x.y/z'') = ''see [link]''"
    by (simp add: truncate_text_def default_config_def url_at_def is_space_def)
  have o: "message_type ?s \<noteq> Some ''text_message''" by (simp add: text_message_def)
  have e: "message (text_message ''C'' []) = Some []" by (simp add: text_message_def)
  have 1: "format_message ?c ?m =
      Some ((if include_username ?c then author_name ?m @ '' says: '' else [])
            @ re_sub_url (truncate_text ?c ''see http://x.y/z''))"
    using format_message_items [of ?c ?m _ "''see http://x.y/z''"] k t n by blast
  have 1: "format_message ?c ?m = Some ''B says: see [link]''"
    unfolding 1 r a using u by simp
  have 2: "format_message ?c ?s = None"
    using format_message_items [of ?c ?s] o by blast
  have 3: "format_message ?c (text_message ''C'' []) = None"
    using format_message_items [of ?c "text_message ''C'' []"] e by blast
  show ?thesis using k t n 1 o 2 e 3 by blast
qed

lemma truncate_text_long:
  "0 \<le> max_message_length cfg \<Longrightarrow> max_message_length cfg < int (length b) \<Longrightarrow>
   truncate_text cfg b = take (nat (max_message_length cfg)) b @ ''...''"
  by (simp add: truncate_text_def slice_to_def)

lemma truncate_text_short:
  "int (length b) \<le> max_message_length cfg \<Longrightarrow> truncate_text cfg b = b"
  by (simp add: truncate_text_def)

text \<open>
  Claim C4. For a plain-text message whose body is longer than the configured maximum
  length, normalisation cuts the body to exactly its first \<^verbatim>\<open>max_message_length\<close>
  characters followed by \<^verbatim>\<open>...\<close>; this text then goes through the URL replacement, and
  where the kept characters do not contain \<^verbatim>\<open>http\<close> it is the body of the item as it is.
  A body no longer than the maximum is not truncated. The maximum length is not negative
  (validation makes it at least 1).
\<close>

theorem long_body_truncated:
  assumes "message_type m = Some ''text_message''" and "message m = Some b" and "b \<noteq> []"
    and "0 \<le> max_message_length cfg"
  shows
    "(max_message_length cfg < int (length b) \<longrightarrow>
        truncate_text cfg b = take (nat (max_message_length cfg)) b @ ''...''
        \<and> format_message cfg m =
            Some ((if include_username cfg then author_name m @ '' says: '' else [])
                  @ re_sub_url (take (nat (max_message_length cfg)) b @ ''...''))
        \<and> ((\<forall>i. take 4 (drop i (take (nat (max_message_length cfg)) b)) \<noteq> ''http'') \<longrightarrow>
            format_message cfg m =
              Some ((if include_username cfg then author_name m @ '' says: '' else [])
                    @ take (nat (max_message_length cfg)) b @ ''...'')))
     \<and> (int (length b) \<le> max_message_length cfg \<longrightarrow>
        truncate_text cfg b = b
        \<and> format_message cfg m =
            Some ((if include_username cfg then author_name m @ '' says: '' else [])
                  @ re_sub_url b))"
proof (intro conjI impI)
  assume l: "max_message_length cfg < int (length b)"
  show t: "truncate_text cfg b = take (nat (max_message_length cfg)) b @ ''...''"
    using assms(4) l by (rule truncate_text_long)
  show f: "format_message cfg m =
      Some ((if include_username cfg then author_name m @ '' says: '' else [])
            @ re_sub_url (take (nat (max_message_length cfg)) b @ ''...''))"
    using format_message_text [OF assms(1-3), of cfg] t by simp
  assume "\<forall>i. take 4 (drop i (take (nat (max_message_length cfg)) b)) \<noteq> ''http''"
  then have "re_sub_url (take (nat (max_message_length cfg)) b @ ''...'')
      = take (nat (max_message_length cfg)) b @ ''...''"
    by (intro re_sub_url_dots) simp
  with f show "format_message cfg m =
      Some ((if include_username cfg then author_name m @ '' says: '' else [])
            @ take (nat (max_message_length cfg)) b @ ''...'')"
    by simp
next
  assume s: "int (length b) \<le> max_message_length cfg"
  then show t: "truncate_text cfg b = b" by (rule truncate_text_short)
  show "format_message cfg m =
      Some ((if include_username cfg then author_name m @ '' says: '' else []) @ re_sub_url b)"
    using format_message_text [OF assms(1-3), of cfg] t by simp
qed

theorem long_body_truncated_witness:
  "message_type (text_message ''A'' ''hello world'') = Some ''text_message''
   \<and> message (text_message ''A'' ''hello world'') = Some ''hello world''
   \<and> 0 \<le> max_message_length (default_config ''u''\<lparr>max_message_length := 5\<rparr>)
   \<and> max_message_length (default_config ''u''\<lparr>max_message_length := 5\<rparr>)
       < int (length ''hello world'')
   \<and> format_message (default_config ''u''\<lparr>max_message_length := 5\<rparr>)
        (text_message ''A'' ''hello world'') = Some ''A says: hello...''
   \<and> int (length ''hello world'') \<le> max_message_length (default_config ''u'')
   \<and> format_message (default_config ''u'') (text_message ''A'' ''hello world'')
       = Some ''A says: hello world''"
proof -
  let ?m = "text_message ''A'' ''hello world''"
  let ?c = "default_config ''u''\<lparr>max_message_length := 5\<rparr>"
  let ?d = "default_config ''u''"
  have k: "message_type ?m = Some ''text_message''" and t: "message ?m = Some ''hello world''"
    by (simp_all add: text_message_def)
  have n: "''hello world'' \<noteq> []" by simp
  have c: "0 \<le> max_message_length ?c" and d: "0 \<le> max_message_length ?d"
    by (simp_all add: default_config_def)
  have a: "author_name ?m = ''A''" by (simp add: author_name_def text_message_def)
  have u: "include_username ?c" "include_username ?d" by (simp_all add: default_config_def)
  have l: "max_message_length ?c = 5" "max_message_length ?d = 200"
    by (simp_all add: default_config_def)
  have lc: "max_message_length ?c < int (length ''hello world'')" unfolding l by simp
  have ld: "int (length ''hello world'') \<le> max_message_length ?d" unfolding l by simp
  have 1: "format_message ?c ?m = Some ''A says: hello...''"
    using long_body_truncated [OF k t n c] lc a u l by (simp add: url_at_def)
  have 2: "format_message ?d ?m = Some ''A says: hello world''"
    using long_body_truncated [OF k t n d] ld a u by (simp add: url_at_def)
  show ?thesis using k t c lc 1 ld 2 by blast
qed

text \<open>
  The URL replacement runs on the truncated text, so a URL that is cut takes the marker
  with it into the placeholder.
\<close>

lemma marker_drawn_into_link:
  "format_message (default_config ''u''\<lparr>max_message_length := 12, include_username := False\<rparr>)
     (text_message ''A'' ''see http://example.com/page'') = Some ''see [link]''"
  by (simp add: format_message_def default_config_def text_message_def truncate_text_def
      slice_to_def url_at_def is_space_def Let_def)

text \<open>
  Claim C10. A plain-text message with a non-empty body whose author, or whose author's
  name, is absent is not dropped: with user names included its item starts with
  \<^verbatim>\<open>Unknown says: \<close>, followed by the normalised body.
\<close>

theorem unknown_author:
  assumes "message_type m = Some ''text_message''" and "message m = Some b" and "b \<noteq> []"
    and "include_username cfg"
    and "author m = None \<or> (\<exists>a. author m = Some a \<and> name a = None)"
  shows "format_message cfg m = Some (''Unknown says: '' @ re_sub_url (truncate_text cfg b))"
proof -
  from assms(5) have "author_name m = ''Unknown''"
    by (auto simp: author_name_def)
  with format_message_text [OF assms(1-3), of cfg] assms(4) show ?thesis by simp
qed

theorem unknown_author_witness:
  "message_type \<lparr>message_type = Some ''text_message'', author = None, message = Some ''hi''\<rparr>
     = Some ''text_message''
   \<and> include_username (default_config ''u'')
   \<and> format_message (default_config ''u'')
        \<lparr>message_type = Some ''text_message'', author = None, message = Some ''hi''\<rparr>
       = Some ''Unknown says: hi''
   \<and> format_message (default_config ''u'')
        \<lparr>message_type = Some ''text_message'', author = Some \<lparr>name = None\<rparr>,
         message = Some ''hi''\<rparr>
       = Some ''Unknown says: hi''"
proof -
  let ?m = "\<lparr>message_type = Some ''text_message'', author = None, message = Some ''hi''\<rparr>"
  let ?n = "\<lparr>message_type = Some ''text_message'', author = Some \<lparr>name = None\<rparr>,
         message = Some ''hi''\<rparr>"
  let ?c = "default_config ''u''"
  have u: "include_username ?c" by (simp add: default_config_def)
  have r: "re_sub_url (truncate_text ?c ''hi'') = ''hi''"
    by (simp add: truncate_text_def default_config_def url_at_def)
  have 1: "format_message ?c ?m = Some (''Unknown says: '' @ re_sub_url (truncate_text ?c ''hi''))"
    by (rule unknown_author [OF _ _ _ u]) simp_all
  have 2: "format_message ?c ?n = Some (''Unknown says: '' @ re_sub_url (truncate_text ?c ''hi''))"
    by (rule unknown_author [OF _ _ _ u]) simp_all
  show ?thesis using 1 2 u r by simp
qed

subsection \<open>The bounded queue and the ingestion loop\<close>

lemma try_put_queue:
  "message_queue (try_put st x) =
     (if full (maxsize st) (message_queue st) then message_queue st else message_queue st @ [x])"
  by (simp add: try_put_def put_def)

lemma try_put_maxsize: "maxsize (try_put st x) = maxsize st"
  by (simp add: try_put_def put_def)

lemma try_put_shutdown: "shutdown_event (try_put st x) = shutdown_event st"
  by (simp add: try_put_def put_def)

lemma try_put_full:
  "full (maxsize st) (message_queue st) \<Longrightarrow>
   try_put st x = st\<lparr>blocked_ms := blocked_ms st + 100\<rparr>"
  by (simp add: try_put_def put_def)

lemma foldl_try_put_maxsize: "maxsize (foldl try_put st xs) = maxsize st"
  by (induction xs arbitrary: st) (simp_all add: try_put_maxsize)

lemma foldl_try_put_shutdown: "shutdown_event (foldl try_put st xs) = shutdown_event st"
  by (induction xs arbitrary: st) (simp_all add: try_put_shutdown)

lemma foldl_try_put_queue:
  "0 < maxsize st \<Longrightarrow> int (length (message_queue st)) \<le> maxsize st \<Longrightarrow>
   message_queue (foldl try_put st xs) = take (nat (maxsize st)) (message_queue st @ xs)"
proof (induction xs arbitrary: st)
  case Nil
  then show ?case by simp
next
  case (Cons x xs)
  let ?st = "try_put st x"
  have m: "maxsize ?st = maxsize st" by (rule try_put_maxsize)
  show ?case
  proof (cases "full (maxsize st) (message_queue st)")
    case True
    then have q: "message_queue ?st = message_queue st" by (simp add: try_put_queue)
    from True Cons.prems have len: "length (message_queue st) = nat (maxsize st)"
      by (simp add: full_def)
    have "message_queue (foldl try_put ?st xs) = take (nat (maxsize ?st)) (message_queue ?st @ xs)"
      using Cons.prems m q by (intro Cons.IH) simp_all
    then show ?thesis using m q len by simp
  next
    case False
    then have q: "message_queue ?st = message_queue st @ [x]" by (simp add: try_put_queue)
    from False Cons.prems have "int (length (message_queue ?st)) \<le> maxsize ?st"
      using m q by (simp add: full_def)
    then have "message_queue (foldl try_put ?st xs) = take (nat (maxsize ?st)) (message_queue ?st @ xs)"
      using Cons.prems m by (intro Cons.IH) simp_all
    then show ?thesis using m q by simp
  qed
qed

lemma handle_message_try_put:
  "handle_message cfg st m =
     (case format_message cfg m of None \<Rightarrow> st | Some item \<Rightarrow> try_put st item)"
  by (auto simp: handle_message_def dest: format_message_nonempty split: option.splits)

lemma read_loop_chats:
  "\<not> shutdown_event st \<Longrightarrow>
   read_loop cfg (map Chat ms) st = foldl try_put st (List.map_filter (format_message cfg) ms)"
proof (induction ms arbitrary: st)
  case Nil
  then show ?case by (simp add: map_filter_simps)
next
  case (Cons m ms)
  show ?case
  proof (cases "format_message cfg m")
    case None
    then show ?thesis using Cons by (simp add: map_filter_simps handle_message_try_put)
  next
    case (Some item)
    from Cons.prems have "\<not> shutdown_event (try_put st item)" by (simp add: try_put_shutdown)
    then show ?thesis using Cons Some by (simp add: map_filter_simps handle_message_try_put)
  qed
qed

lemma validated_maxsize_pos: "validate cfg = Inr () \<Longrightarrow> 0 < maxsize (reader_init cfg)"
  by (simp add: validate_def reader_init_def split: if_splits)

text \<open>
  Claim C1. From an empty queue of capacity \<open>C\<close> (positive, as validation requires),
  \<open>N\<close> pushes with no pop in between leave exactly the first \<open>min N C\<close> pushed items,
  in their order; after every prefix of the pushes the length is at most \<open>C\<close>; and a
  push on a full queue leaves the queue as it was, so the new item is the one discarded.
  The same holds for the reading loop over a stream of messages, whose pushes are the
  items the messages format to.
\<close>

theorem pushes_keep_first:
  assumes "0 < maxsize st" and "message_queue st = []"
  shows "message_queue (foldl try_put st items) = take (min (length items) (nat (maxsize st))) items
    \<and> length (message_queue (foldl try_put st items)) = min (length items) (nat (maxsize st))
    \<and> (\<forall>k \<le> length items.
          int (length (message_queue (foldl try_put st (take k items)))) \<le> maxsize st)
    \<and> (\<forall>s x. full (maxsize s) (message_queue s) \<longrightarrow>
          message_queue (try_put s x) = message_queue s)
    \<and> (\<not> shutdown_event st \<longrightarrow>
          message_queue (read_loop cfg (map Chat ms) st)
            = take (nat (maxsize st)) (List.map_filter (format_message cfg) ms))"
proof (intro conjI allI impI)
  have q: "message_queue (foldl try_put st xs) = take (nat (maxsize st)) xs" for xs
    using foldl_try_put_queue [of st xs] assms by simp
  show "message_queue (foldl try_put st items) = take (min (length items) (nat (maxsize st))) items"
    unfolding q by (simp add: min_def)
  show "length (message_queue (foldl try_put st items)) = min (length items) (nat (maxsize st))"
    unfolding q by simp
  show "int (length (message_queue (foldl try_put st (take k items)))) \<le> maxsize st" for k
    unfolding q using assms(1) by simp
  show "message_queue (try_put s x) = message_queue s"
    if "full (maxsize s) (message_queue s)" for s :: reader and x
    using that by (simp add: try_put_queue)
  show "message_queue (read_loop cfg (map Chat ms) st)
      = take (nat (maxsize st)) (List.map_filter (format_message cfg) ms)"
    if "\<not> shutdown_event st"
    using read_loop_chats [OF that] q by simp
qed

theorem pushes_keep_first_witness:
  "0 < maxsize (reader_init (default_config ''u''\<lparr>queue_max_size := 2\<rparr>))
   \<and> message_queue (reader_init (default_config ''u''\<lparr>queue_max_size := 2\<rparr>)) = []
   \<and> message_queue
        (foldl try_put (reader_init (default_config ''u''\<lparr>queue_max_size := 2\<rparr>))
           [''a'', ''b'', ''c''])
       = [''a'', ''b'']
   \<and> (2::nat) \<le> length [''a'', ''b'', ''c'']
   \<and> full 2 [''a'', ''b'']"
proof -
  let ?st = "reader_init (default_config ''u''\<lparr>queue_max_size := 2\<rparr>)"
  have m: "maxsize ?st = 2" by (simp add: reader_init_def default_config_def)
  have p: "0 < maxsize ?st" unfolding m by simp
  have e: "message_queue ?st = []" by (simp add: reader_init_def)
  have "message_queue (foldl try_put ?st [''a'', ''b'', ''c''])
      = take (min (length [''a'', ''b'', ''c'']) (nat (maxsize ?st))) [''a'', ''b'', ''c'']"
    using pushes_keep_first [OF p e] by blast
  then have r: "message_queue (foldl try_put ?st [''a'', ''b'', ''c'']) = [''a'', ''b'']"
    unfolding m by simp
  have f: "full 2 [''a'', ''b'']" by (simp add: full_def)
  show ?thesis using p e r f by simp
qed

text \<open>
  Claim C2, as amended. An item pushed while the queue is at capacity, and stays so, is
  not refused at once: \<^verbatim>\<open>put\<close> blocks for its timeout of 100 ms and then raises
  \<^verbatim>\<open>queue.Full\<close>. The loop catches it: the item is discarded, the queue and the message
  counter are unchanged, and the loop goes on with the rest of the stream.
\<close>

theorem full_put_blocks_then_skips:
  assumes "full (maxsize st) (message_queue st)" and "format_message cfg m = Some item"
    and "\<not> shutdown_event st"
  shows "put (maxsize st) 100 (message_queue st) item = (Inl Full, 100)
    \<and> handle_message cfg st m = st\<lparr>blocked_ms := blocked_ms st + 100\<rparr>
    \<and> read_loop cfg (Chat m # evs) st
        = read_loop cfg evs (st\<lparr>blocked_ms := blocked_ms st + 100\<rparr>)"
proof (intro conjI)
  show "put (maxsize st) 100 (message_queue st) item = (Inl Full, 100)"
    using assms(1) by (simp add: put_def)
  show h: "handle_message cfg st m = st\<lparr>blocked_ms := blocked_ms st + 100\<rparr>"
    using assms(1,2) by (simp add: handle_message_try_put try_put_full)
  show "read_loop cfg (Chat m # evs) st
      = read_loop cfg evs (st\<lparr>blocked_ms := blocked_ms st + 100\<rparr>)"
    using assms(3) h by simp
qed

theorem full_put_blocks_then_skips_witness:
  "full (maxsize (reader_init (default_config ''u''\<lparr>queue_max_size := 1\<rparr>)\<lparr>message_queue := [''x'']\<rparr>))
     (message_queue (reader_init (default_config ''u''\<lparr>queue_max_size := 1\<rparr>)\<lparr>message_queue := [''x'']\<rparr>))
   \<and> format_message (default_config ''u'') (text_message ''A'' ''hi'') = Some ''A says: hi''
   \<and> \<not> shutdown_event (reader_init (default_config ''u''\<lparr>queue_max_size := 1\<rparr>)\<lparr>message_queue := [''x'']\<rparr>)
   \<and> read_loop (default_config ''u'') [Chat (text_message ''A'' ''hi'')]
        (reader_init (default_config ''u''\<lparr>queue_max_size := 1\<rparr>)\<lparr>message_queue := [''x'']\<rparr>)
      = \<lparr>message_queue = [''x''], maxsize = 1, pause_event = True, shutdown_event = False,
         message_count = 0, blocked_ms = 100\<rparr>"
proof -
  let ?st = "reader_init (default_config ''u''\<lparr>queue_max_size := 1\<rparr>)\<lparr>message_queue := [''x'']\<rparr>"
  let ?c = "default_config ''u''"
  have f: "full (maxsize ?st) (message_queue ?st)"
    by (simp add: reader_init_def default_config_def full_def)
  have i: "format_message ?c (text_message ''A'' ''hi'') = Some ''A says: hi''"
    by (simp add: format_message_def default_config_def text_message_def author_name_def
        truncate_text_def url_at_def Let_def)
  have n: "\<not> shutdown_event ?st" by (simp add: reader_init_def)
  have "read_loop ?c [Chat (text_message ''A'' ''hi'')] ?st
      = read_loop ?c [] (?st\<lparr>blocked_ms := blocked_ms ?st + 100\<rparr>)"
    using full_put_blocks_then_skips [OF f i n] by blast
  then have r: "read_loop ?c [Chat (text_message ''A'' ''hi'')] ?st
      = \<lparr>message_queue = [''x''], maxsize = 1, pause_event = True, shutdown_event = False,
         message_count = 0, blocked_ms = 100\<rparr>"
    by (simp add: reader_init_def default_config_def)
  show ?thesis using f i n r by blast
qed

text \<open>
  The claim as stated fails: on a full queue the call does not return immediately, it
  blocks for the whole timeout.
\<close>

theorem full_put_not_immediate:
  "full 1 [''a''] \<and> snd (put 1 100 [''a''] ''b'') \<noteq> 0"
  by (simp add: full_def put_def)

subsection \<open>The speech worker: items taken and items spoken\<close>

lemma holds_inv_init: "holds_inv (speaker_init sh)"
  by (simp add: holds_inv_def speaker_init_def)

lemma holds_inv_step: "holds_inv s \<Longrightarrow> holds_inv (speaker_step dev s)"
  by (cases "pc s"; cases "setup_client dev"; cases "message_queue s")
     (auto simp: holds_inv_def speaker_step_def get_def)

lemma holds_inv_event:
  assumes "holds_inv s"
  shows "holds_inv (on_event dev s e)"
proof (cases e)
  case Tick
  then show ?thesis using assms by (simp add: on_event_def holds_inv_step)
qed (use assms in \<open>auto simp: on_event_def put_def holds_inv_def split: location.splits\<close>)

lemma holds_inv_run: "holds_inv s \<Longrightarrow> holds_inv (speaker_run dev es s)"
  by (induction es arbitrary: s) (simp_all add: holds_inv_event)

lemma holds_inv_D:
  assumes "holds_inv s"
  shows "prefix (spoken s) (popped s)"
    and "length (popped s) \<le> length (spoken s) + 1"
    and "popped s \<noteq> spoken s \<Longrightarrow>
          \<exists>t. popped s = spoken s @ [t]
            \<and> (pc s = Pause_gate t \<or> pc s = After_gate t
               \<or> (shutdown_event s \<and> (pc s = Cleanup \<or> pc s = Stopped)))"
  using assms by (auto simp: holds_inv_def split: location.splits)

lemma step_conserves:
  "popped (speaker_step dev s) @ message_queue (speaker_step dev s) = popped s @ message_queue s"
  by (cases "pc s"; cases "setup_client dev"; cases "message_queue s")
     (auto simp: speaker_step_def get_def)

lemma event_conserves:
  "\<exists>ys. subseq ys (offered [e])
     \<and> popped (on_event dev s e) @ message_queue (on_event dev s e) = popped s @ message_queue s @ ys"
proof (cases e)
  case Tick
  then show ?thesis using step_conserves [of dev s] by (simp add: on_event_def put_def)
next
  case (Producer_put x)
  show ?thesis
  proof (cases "full (maxsize s) (message_queue s)")
    case True
    with Producer_put show ?thesis by (simp add: on_event_def put_def)
  next
    case False
    with Producer_put have "subseq [x] (offered [e])
      \<and> popped (on_event dev s e) @ message_queue (on_event dev s e) = popped s @ message_queue s @ [x]"
      by (simp add: on_event_def put_def)
    then show ?thesis by blast
  qed
qed (simp_all add: on_event_def put_def)

lemma offered_Cons: "offered (e # es) = offered [e] @ offered es"
  by (cases e) simp_all

lemma run_conserves:
  "\<exists>ys. subseq ys (offered es)
     \<and> popped (speaker_run dev es s) @ message_queue (speaker_run dev es s)
         = popped s @ message_queue s @ ys"
proof (induction es arbitrary: s)
  case Nil
  then show ?case by simp
next
  case (Cons e es)
  obtain ys where ys: "subseq ys (offered [e])"
    and e: "popped (on_event dev s e) @ message_queue (on_event dev s e) = popped s @ message_queue s @ ys"
    using event_conserves by blast
  obtain zs where zs: "subseq zs (offered es)"
    and r: "popped (speaker_run dev es (on_event dev s e)) @ message_queue (speaker_run dev es (on_event dev s e))
         = popped (on_event dev s e) @ message_queue (on_event dev s e) @ zs"
    using Cons.IH by blast
  have "subseq (ys @ zs) (offered (e # es))"
    using ys zs offered_Cons [of e es] by (simp add: list_emb_append_mono)
  moreover have "popped (speaker_run dev (e # es) s) @ message_queue (speaker_run dev (e # es) s)
      = popped s @ message_queue s @ ys @ zs"
    using e r by simp
  ultimately show ?case by blast
qed

text \<open>
  Claim C6, as amended. In every run of the speech worker the texts passed to \<^verbatim>\<open>speak\<close>
  are the texts taken from the queue, in order, except possibly the last one taken: that
  one is either still held at the pause gate or at the check after it, or the worker has
  left its loop with the shutdown event set and has dropped it. Nothing is lost inside
  the queue: what the worker has taken, followed by what is still buffered, is the initial
  content followed by the offered items that the queue accepted.
\<close>

theorem popped_spoken_unless_shutdown:
  "prefix (spoken (speaker_run dev es (speaker_init sh))) (popped (speaker_run dev es (speaker_init sh)))
   \<and> length (popped (speaker_run dev es (speaker_init sh)))
       \<le> length (spoken (speaker_run dev es (speaker_init sh))) + 1
   \<and> (popped (speaker_run dev es (speaker_init sh)) \<noteq> spoken (speaker_run dev es (speaker_init sh)) \<longrightarrow>
        (\<exists>t. popped (speaker_run dev es (speaker_init sh))
                = spoken (speaker_run dev es (speaker_init sh)) @ [t]
           \<and> (pc (speaker_run dev es (speaker_init sh)) = Pause_gate t
              \<or> pc (speaker_run dev es (speaker_init sh)) = After_gate t
              \<or> (shutdown_event (speaker_run dev es (speaker_init sh))
                 \<and> (pc (speaker_run dev es (speaker_init sh)) = Cleanup
                    \<or> pc (speaker_run dev es (speaker_init sh)) = Stopped)))))
   \<and> (\<exists>ys. subseq ys (offered es)
         \<and> popped (speaker_run dev es (speaker_init sh))
             @ message_queue (speaker_run dev es (speaker_init sh))
           = message_queue sh @ ys)"
proof -
  let ?s = "speaker_run dev es (speaker_init sh)"
  have i: "holds_inv ?s" using holds_inv_init by (rule holds_inv_run)
  obtain ys where "subseq ys (offered es)"
    and "popped ?s @ message_queue ?s = popped (speaker_init sh) @ message_queue (speaker_init sh) @ ys"
    using run_conserves by blast
  then have c: "\<exists>ys. subseq ys (offered es) \<and> popped ?s @ message_queue ?s = message_queue sh @ ys"
    by (auto simp: speaker_init_def)
  show ?thesis using holds_inv_D [OF i] c by blast
qed

theorem popped_spoken_unless_shutdown_witness:
  "popped (speaker_run dev_ok [Tick, Tick, Tick, Tick]
      (speaker_init \<lparr>message_queue = [''a''], maxsize = 50, pause_event = True, shutdown_event = False\<rparr>))
     \<noteq> spoken (speaker_run dev_ok [Tick, Tick, Tick, Tick]
      (speaker_init \<lparr>message_queue = [''a''], maxsize = 50, pause_event = True, shutdown_event = False\<rparr>))
   \<and> pc (speaker_run dev_ok [Tick, Tick, Tick, Tick]
      (speaker_init \<lparr>message_queue = [''a''], maxsize = 50, pause_event = True, shutdown_event = False\<rparr>))
     = After_gate ''a''
   \<and> (\<exists>t. popped (speaker_run dev_ok [Tick, Tick, Tick, Tick]
      (speaker_init \<lparr>message_queue = [''a''], maxsize = 50, pause_event = True, shutdown_event = False\<rparr>))
     = spoken (speaker_run dev_ok [Tick, Tick, Tick, Tick]
      (speaker_init \<lparr>message_queue = [''a''], maxsize = 50, pause_event = True, shutdown_event = False\<rparr>)) @ [t])"
proof -
  let ?sh = "\<lparr>message_queue = [''a''], maxsize = 50, pause_event = True, shutdown_event = False\<rparr>"
  let ?s = "speaker_run dev_ok [Tick, Tick, Tick, Tick] (speaker_init ?sh)"
  have p: "popped ?s = [''a'']" and q: "spoken ?s = []" and l: "pc ?s = After_gate ''a''"
    by (simp_all add: dev_ok_def speaker_init_def on_event_def put_def speaker_step_def get_def)
  have n: "popped ?s \<noteq> spoken ?s" using p q by simp
  have "\<exists>t. popped ?s = spoken ?s @ [t]"
    using popped_spoken_unless_shutdown [of dev_ok "[Tick, Tick, Tick, Tick]" ?sh] n by blast
  with n l show ?thesis by blast
qed

text \<open>
  The claim as stated fails: the worker takes \<^verbatim>\<open>a\<close> from the queue, the shutdown event
  is set before the check that follows the pause gate, and the worker stops without
  having passed \<^verbatim>\<open>a\<close> to \<^verbatim>\<open>speak\<close>.
\<close>

theorem popped_item_dropped_at_shutdown:
  "popped (speaker_run dev_ok [Tick, Tick, Tick, Set_shutdown, Tick, Tick, Tick]
      (speaker_init \<lparr>message_queue = [''a''], maxsize = 50, pause_event = True, shutdown_event = False\<rparr>))
     = [''a'']
   \<and> spoken (speaker_run dev_ok [Tick, Tick, Tick, Set_shutdown, Tick, Tick, Tick]
      (speaker_init \<lparr>message_queue = [''a''], maxsize = 50, pause_event = True, shutdown_event = False\<rparr>))
     = []
   \<and> pc (speaker_run dev_ok [Tick, Tick, Tick, Set_shutdown, Tick, Tick, Tick]
      (speaker_init \<lparr>message_queue = [''a''], maxsize = 50, pause_event = True, shutdown_event = False\<rparr>))
     = Stopped"
  by (simp add: dev_ok_def speaker_init_def on_event_def put_def speaker_step_def get_def)

subsection \<open>The speech worker: shutdown while paused\<close>

lemma stopping_step:
  assumes "shutdown_event s" and "stopping t (pc s)"
  shows "shutdown_event (speaker_step dev s)" and "stopping t (pc (speaker_step dev s))"
    and "spoken (speaker_step dev s) = spoken s" and "popped (speaker_step dev s) = popped s"
    and "message_queue (speaker_step dev s) = message_queue s"
    and "wait_budget t (speaker_step dev s) \<le> wait_budget t s"
    and "steps_left (pc (speaker_step dev s)) \<le> steps_left (pc s) - 1"
proof -
  from assms(2) consider "pc s = Pause_gate t" | "pc s = After_gate t" | "pc s = Cleanup"
    | "pc s = Stopped"
    unfolding stopping_def by blast
  then have "shutdown_event (speaker_step dev s) \<and> stopping t (pc (speaker_step dev s))
    \<and> spoken (speaker_step dev s) = spoken s \<and> popped (speaker_step dev s) = popped s
    \<and> message_queue (speaker_step dev s) = message_queue s
    \<and> wait_budget t (speaker_step dev s) \<le> wait_budget t s
    \<and> steps_left (pc (speaker_step dev s)) \<le> steps_left (pc s) - 1"
    using assms(1)
    by cases (simp_all add: speaker_step_def stopping_def wait_budget_def)
  then show "shutdown_event (speaker_step dev s)" and "stopping t (pc (speaker_step dev s))"
    and "spoken (speaker_step dev s) = spoken s" and "popped (speaker_step dev s) = popped s"
    and "message_queue (speaker_step dev s) = message_queue s"
    and "wait_budget t (speaker_step dev s) \<le> wait_budget t s"
    and "steps_left (pc (speaker_step dev s)) \<le> steps_left (pc s) - 1"
    by simp_all
qed

lemma stopping_event:
  assumes "shutdown_event s" and "stopping t (pc s)"
  shows "shutdown_event (on_event dev s e)" and "stopping t (pc (on_event dev s e))"
    and "spoken (on_event dev s e) = spoken s" and "popped (on_event dev s e) = popped s"
    and "prefix (message_queue s) (message_queue (on_event dev s e))"
    and "wait_budget t (on_event dev s e) \<le> wait_budget t s"
    and "steps_left (pc (on_event dev s e)) \<le> steps_left (pc s) - ticks [e]"
  using assms stopping_step [OF assms, of dev]
  by (cases e; simp add: on_event_def put_def ticks_def wait_budget_def)+

lemma ticks_Cons: "ticks (e # es) = ticks [e] + ticks es"
  by (simp add: ticks_def)

lemma stopping_run:
  assumes "shutdown_event s" and "stopping t (pc s)"
  shows "shutdown_event (speaker_run dev es s) \<and> stopping t (pc (speaker_run dev es s))
    \<and> spoken (speaker_run dev es s) = spoken s \<and> popped (speaker_run dev es s) = popped s
    \<and> prefix (message_queue s) (message_queue (speaker_run dev es s))
    \<and> wait_budget t (speaker_run dev es s) \<le> wait_budget t s
    \<and> steps_left (pc (speaker_run dev es s)) \<le> steps_left (pc s) - ticks es"
  using assms
proof (induction es arbitrary: s)
  case Nil
  then show ?case by (simp add: ticks_def)
next
  case (Cons e es)
  let ?s = "on_event dev s e"
  note ev = stopping_event [OF Cons.prems, of dev e]
  note ih = Cons.IH [OF ev(1) ev(2)]
  have "prefix (message_queue s) (message_queue (speaker_run dev es ?s))"
    using ev(5) ih prefix_order.order_trans by blast
  moreover have "wait_budget t (speaker_run dev es ?s) \<le> wait_budget t s"
    using ev(6) ih by linarith
  moreover have "steps_left (pc (speaker_run dev es ?s)) \<le> steps_left (pc s) - ticks (e # es)"
    using ev(7) ih unfolding ticks_Cons [of e es] by linarith
  ultimately show ?case using ih ev(3,4) by simp
qed

lemma steps_left_0: "stopping t l \<Longrightarrow> steps_left l = 0 \<Longrightarrow> l = Stopped"
  by (auto simp: stopping_def)

text \<open>
  Claim C7. The worker waits at the pause gate, paused, holding a text, and the shutdown
  event is set. Then, whatever else happens around it, after three more steps of the worker
  (the wait that times out, the check, the cleanup) it has stopped; it has spoken nothing
  more, neither the held text nor any buffered one; it has taken nothing more from the
  queue, whose items are all still there; and it has waited at most one more timeout of
  500 ms.
\<close>

theorem shutdown_while_paused:
  assumes "pc s = Pause_gate text" and "\<not> pause_event s" and "3 \<le> ticks es"
  shows "pc (speaker_run dev (Set_shutdown # es) s) = Stopped
    \<and> spoken (speaker_run dev (Set_shutdown # es) s) = spoken s
    \<and> popped (speaker_run dev (Set_shutdown # es) s) = popped s
    \<and> prefix (message_queue s) (message_queue (speaker_run dev (Set_shutdown # es) s))
    \<and> waited_ms (speaker_run dev (Set_shutdown # es) s) \<le> waited_ms s + 500"
proof -
  let ?s = "s\<lparr>shutdown_event := True\<rparr>"
  let ?r = "speaker_run dev (Set_shutdown # es) s"
  have r: "?r = speaker_run dev es ?s" by (simp add: on_event_def put_def)
  have sd: "shutdown_event ?s" by simp
  have st: "stopping text (pc ?s)" using assms(1) by (simp add: stopping_def)
  note run = stopping_run [OF sd st, of dev es]
  have "steps_left (pc (speaker_run dev es ?s)) = 0"
    using run assms(1,3) by simp
  with run have p: "pc (speaker_run dev es ?s) = Stopped" using steps_left_0 by blast
  have "waited_ms (speaker_run dev es ?s) \<le> wait_budget text (speaker_run dev es ?s)"
    by (simp add: wait_budget_def)
  also have "\<dots> \<le> wait_budget text ?s" using run by simp
  also have "\<dots> = waited_ms s + 500" using assms(1) by (simp add: wait_budget_def)
  finally have w: "waited_ms (speaker_run dev es ?s) \<le> waited_ms s + 500" .
  show ?thesis unfolding r using p w run by simp
qed

theorem shutdown_while_paused_witness:
  "pc (speaker_run dev_ok [Tick, Tick, Tick]
        (speaker_init \<lparr>message_queue = [''a'', ''b''], maxsize = 50, pause_event = False,
           shutdown_event = False\<rparr>)) = Pause_gate ''a''
   \<and> \<not> pause_event (speaker_run dev_ok [Tick, Tick, Tick]
        (speaker_init \<lparr>message_queue = [''a'', ''b''], maxsize = 50, pause_event = False,
           shutdown_event = False\<rparr>))
   \<and> 3 \<le> ticks [Tick, Tick, Tick]
   \<and> pc (speaker_run dev_ok [Set_shutdown, Tick, Tick, Tick]
        (speaker_run dev_ok [Tick, Tick, Tick]
          (speaker_init \<lparr>message_queue = [''a'', ''b''], maxsize = 50, pause_event = False,
             shutdown_event = False\<rparr>))) = Stopped
   \<and> spoken (speaker_run dev_ok [Set_shutdown, Tick, Tick, Tick]
        (speaker_run dev_ok [Tick, Tick, Tick]
          (speaker_init \<lparr>message_queue = [''a'', ''b''], maxsize = 50, pause_event = False,
             shutdown_event = False\<rparr>))) = []"
proof -
  let ?sh = "\<lparr>message_queue = [''a'', ''b''], maxsize = 50, pause_event = False,
           shutdown_event = False\<rparr>"
  let ?s = "speaker_run dev_ok [Tick, Tick, Tick] (speaker_init ?sh)"
  have l: "pc ?s = Pause_gate ''a''" and p: "\<not> pause_event ?s" and q: "spoken ?s = []"
    by (simp_all add: dev_ok_def speaker_init_def on_event_def put_def speaker_step_def get_def)
  have t: "3 \<le> ticks [Tick, Tick, Tick]" by (simp add: ticks_def)
  show ?thesis using shutdown_while_paused [OF l p t, of dev_ok] l p t q by simp
qed

subsection \<open>The speech worker: the ready event\<close>

lemma failed_inv_event:
  "setup_client dev \<noteq> Setup_ok \<Longrightarrow> failed_inv s \<Longrightarrow>
   failed_inv (on_event dev s e) \<and> (e = Tick \<longrightarrow> pc (on_event dev s e) = Stopped)"
  by (cases e; cases "setup_client dev")
     (auto simp: failed_inv_def on_event_def put_def speaker_step_def)

lemma failed_stopped_event:
  "pc s = Stopped \<Longrightarrow> pc (on_event dev s e) = Stopped"
  by (cases e) (auto simp: on_event_def put_def speaker_step_def)

lemma failed_stopped_run:
  "pc s = Stopped \<Longrightarrow> pc (speaker_run dev es s) = Stopped"
  by (induction es arbitrary: s) (simp_all add: failed_stopped_event)

lemma failed_inv_run:
  "setup_client dev \<noteq> Setup_ok \<Longrightarrow> failed_inv s \<Longrightarrow>
   failed_inv (speaker_run dev es s) \<and> (0 < ticks es \<longrightarrow> pc (speaker_run dev es s) = Stopped)"
proof (induction es arbitrary: s)
  case Nil
  then show ?case by (simp add: ticks_def)
next
  case (Cons e es)
  note ev = failed_inv_event [OF Cons.prems, of e]
  note ih = Cons.IH [OF Cons.prems(1) conjunct1 [OF ev]]
  show ?case
  proof (cases "e = Tick")
    case True
    with ev have "pc (on_event dev s e) = Stopped" by simp
    then have "pc (speaker_run dev es (on_event dev s e)) = Stopped" by (rule failed_stopped_run)
    with ih show ?thesis by simp
  next
    case False
    then have "ticks (e # es) = ticks es" by (simp add: ticks_def)
    with ih show ?thesis by simp
  qed
qed

lemma ready_inv_event: "ready_inv s \<Longrightarrow> ready_inv (on_event dev s e)"
  by (cases e; cases "pc s"; cases "setup_client dev"; cases "message_queue s")
     (auto simp: ready_inv_def on_event_def put_def speaker_step_def get_def)

lemma ready_inv_run: "ready_inv s \<Longrightarrow> ready_inv (speaker_run dev es s)"
  by (induction es arbitrary: s) (simp_all add: ready_inv_event)

lemma left_start_event:
  "pc s \<noteq> Start \<Longrightarrow> pc (on_event dev s e) \<noteq> Start"
  by (cases e; cases "pc s"; cases "message_queue s")
     (auto simp: on_event_def put_def speaker_step_def get_def)

lemma left_start_run: "pc s \<noteq> Start \<Longrightarrow> pc (speaker_run dev es s) \<noteq> Start"
  by (induction es arbitrary: s) (simp_all add: left_start_event)

lemma start_tick_event:
  "pc s = Start \<Longrightarrow> (pc (on_event dev s e) = Start) = (e \<noteq> Tick)"
  by (cases e; cases "setup_client dev") (auto simp: on_event_def put_def speaker_step_def)

lemma start_ticks_run:
  "pc s = Start \<Longrightarrow> (pc (speaker_run dev es s) = Start) = (ticks es = 0)"
proof (induction es arbitrary: s)
  case Nil
  then show ?case by (simp add: ticks_def)
next
  case (Cons e es)
  show ?case
  proof (cases "e = Tick")
    case True
    with Cons.prems have "pc (on_event dev s e) \<noteq> Start" using start_tick_event by blast
    then have "pc (speaker_run dev es (on_event dev s e)) \<noteq> Start" by (rule left_start_run)
    with True show ?thesis by (simp add: ticks_def)
  next
    case False
    with Cons.prems have "pc (on_event dev s e) = Start" using start_tick_event by blast
    from Cons.IH [OF this] False show ?thesis by (simp add: ticks_def)
  qed
qed

text \<open>
  Claim C9. When the setup of the client fails, in either way, the worker takes nothing
  from the queue and speaks nothing, it is only ever at its start or stopped, and after its
  first step it has set the ready event and stopped. Whatever the setup, the ready event is
  set whenever the worker has left its start, so before anything is taken or spoken.
\<close>

theorem ready_set_whatever_setup:
  "(setup_client dev \<noteq> Setup_ok \<longrightarrow>
      popped (speaker_run dev es (speaker_init sh)) = []
      \<and> spoken (speaker_run dev es (speaker_init sh)) = []
      \<and> (pc (speaker_run dev es (speaker_init sh)) = Start
         \<or> pc (speaker_run dev es (speaker_init sh)) = Stopped)
      \<and> (0 < ticks es \<longrightarrow>
           ready_event (speaker_run dev es (speaker_init sh))
           \<and> pc (speaker_run dev es (speaker_init sh)) = Stopped))
   \<and> (pc (speaker_run dev es (speaker_init sh)) \<noteq> Start \<longrightarrow>
        ready_event (speaker_run dev es (speaker_init sh)))
   \<and> (popped (speaker_run dev es (speaker_init sh)) \<noteq> []
       \<or> spoken (speaker_run dev es (speaker_init sh)) \<noteq> [] \<longrightarrow>
        ready_event (speaker_run dev es (speaker_init sh)))
   \<and> (0 < ticks es \<longrightarrow> ready_event (speaker_run dev es (speaker_init sh)))"
proof -
  let ?s = "speaker_run dev es (speaker_init sh)"
  have f0: "failed_inv (speaker_init sh)" by (simp add: failed_inv_def speaker_init_def)
  have r0: "ready_inv (speaker_init sh)" by (simp add: ready_inv_def speaker_init_def)
  have r: "ready_inv ?s" using r0 by (rule ready_inv_run)
  have s0: "pc (speaker_init sh) = Start" by (simp add: speaker_init_def)
  have t: "(pc ?s = Start) = (ticks es = 0)" using s0 by (rule start_ticks_run)
  have a: "setup_client dev \<noteq> Setup_ok \<longrightarrow>
      popped ?s = [] \<and> spoken ?s = [] \<and> (pc ?s = Start \<or> pc ?s = Stopped)
      \<and> (0 < ticks es \<longrightarrow> ready_event ?s \<and> pc ?s = Stopped)"
    using failed_inv_run [OF _ f0, of dev es] by (auto simp: failed_inv_def)
  have b: "pc ?s \<noteq> Start \<longrightarrow> ready_event ?s" using r by (auto simp: ready_inv_def)
  have c: "popped ?s \<noteq> [] \<or> spoken ?s \<noteq> [] \<longrightarrow> ready_event ?s"
    using r by (auto simp: ready_inv_def)
  have d: "0 < ticks es \<longrightarrow> ready_event ?s" using b t by simp
  show ?thesis using a b c d by blast
qed

theorem ready_set_whatever_setup_witness:
  "setup_client dev_failing \<noteq> Setup_ok \<and> 0 < ticks [Tick]
   \<and> ready_event (speaker_run dev_failing [Tick]
        (speaker_init \<lparr>message_queue = [''a''], maxsize = 50, pause_event = True, shutdown_event = False\<rparr>))
   \<and> pc (speaker_run dev_failing [Tick]
        (speaker_init \<lparr>message_queue = [''a''], maxsize = 50, pause_event = True, shutdown_event = False\<rparr>))
      = Stopped
   \<and> popped (speaker_run dev_failing [Tick]
        (speaker_init \<lparr>message_queue = [''a''], maxsize = 50, pause_event = True, shutdown_event = False\<rparr>))
      = []
   \<and> pc (speaker_run dev_ok [Tick]
        (speaker_init \<lparr>message_queue = [''a''], maxsize = 50, pause_event = True, shutdown_event = False\<rparr>))
      \<noteq> Start
   \<and> ready_event (speaker_run dev_ok [Tick]
        (speaker_init \<lparr>message_queue = [''a''], maxsize = 50, pause_event = True, shutdown_event = False\<rparr>))"
proof -
  let ?sh = "\<lparr>message_queue = [''a''], maxsize = 50, pause_event = True, shutdown_event = False\<rparr>"
  have f: "setup_client dev_failing \<noteq> Setup_ok" by (simp add: dev_failing_def)
  have t: "0 < ticks [Tick]" by (simp add: ticks_def)
  have o: "pc (speaker_run dev_ok [Tick] (speaker_init ?sh)) \<noteq> Start"
    by (simp add: dev_ok_def speaker_init_def on_event_def put_def speaker_step_def)
  show ?thesis
    using ready_set_whatever_setup [of dev_failing "[Tick]" ?sh]
      ready_set_whatever_setup [of dev_ok "[Tick]" ?sh] f t o
    by blast
qed

subsection \<open>The command loop\<close>

lemma await_input_exit:
  "await_input evs st = Some st' \<Longrightarrow> Eof \<notin> set evs \<Longrightarrow> shutdown_event st'"
proof (induction evs st rule: await_input.induct)
  case (5 l evs st)
  then show ?case by (auto simp: Let_def split: if_splits)
qed auto

lemma command_loop_exit:
  "command_loop evs st = Some st' \<Longrightarrow> Eof \<notin> set evs \<Longrightarrow> shutdown_event st'"
  using await_input_exit by (auto simp: command_loop_def split: if_splits)

lemma quit_sets_shutdown:
  "command_loop [Line ''q''] (shared_init cfg) = Some (shared_init cfg\<lparr>shutdown_event := True\<rparr>)"
  by (simp add: command_loop_def shared_init_def strip_def lower_def lower_char_def is_space_def)

text \<open>
  Claim C5. The shutdown event is set on every exit from the command loop, before the
  joins. The loop does not do so at the end of the input: from the state \<^verbatim>\<open>main\<close>
  creates, an \<^verbatim>\<open>EOFError\<close> ends the loop with the shutdown event still clear. (Every other
  exit sets it, see \<open>command_loop_exit\<close>.)
\<close>

theorem eof_exit_without_shutdown:
  "command_loop [Eof] (shared_init cfg) = Some (shared_init cfg)
   \<and> \<not> shutdown_event (shared_init cfg)"
  by (simp add: command_loop_def shared_init_def)

end
